theory Spec2Isabelle
  imports Complex_Main "HOL-Library.Sublist"
begin

section \<open>Call graphs\<close>

text \<open>
  The reconstruction engine of \<^verbatim>\<open>log_sequences.py\<close> works on a networkx
  \<^verbatim>\<open>DiGraph\<close> whose nodes are subroutine names (Python \<^verbatim>\<open>str\<close>).
  A graph is kept as the nodes added on their own and the list of directed edges;
  adding an edge adds both of its endpoints, so the nodes of the graph are
  \<open>node_list\<close>.
\<close>

type_synonym node = string
type_synonym path = "node list"

record digraph =
  graph_nodes :: "node list"
  graph_edges :: "(node \<times> node) list"

definition node_list :: "digraph \<Rightarrow> node list" where
  "node_list g = remdups (graph_nodes g @ concat (map (\<lambda>e. [fst e, snd e]) (graph_edges g)))"

definition has_node :: "digraph \<Rightarrow> node \<Rightarrow> bool" where
  "has_node g n = (n \<in> set (node_list g))"

definition edge_list :: "digraph \<Rightarrow> (node \<times> node) list" where
  "edge_list g = remdups (graph_edges g)"

text \<open>
  \<^verbatim>\<open>g.to_undirected()\<close>: the same nodes, every edge usable in both directions.
\<close>

definition to_undirected :: "digraph \<Rightarrow> digraph" where
  "to_undirected g = g\<lparr>graph_edges := graph_edges g @ map (\<lambda>e. (snd e, fst e)) (graph_edges g)\<rparr>"

text \<open>
  \<^verbatim>\<open>g.out_edges(n)\<close> and \<^verbatim>\<open>g.in_edges(n)\<close> take a "bunch" of nodes: a
  node of the graph stands for itself, and any other string is iterated, its
  one-character substrings that are nodes being used instead.
\<close>

definition nbunch_iter :: "digraph \<Rightarrow> node \<Rightarrow> node list" where
  "nbunch_iter g n =
     (if has_node g n then [n]
      else remdups (filter (has_node g) (map (\<lambda>c. [c]) n)))"

definition out_edges :: "digraph \<Rightarrow> node \<Rightarrow> (node \<times> node) list" where
  "out_edges g n =
     concat (map (\<lambda>v. filter (\<lambda>e. fst e = v) (edge_list g)) (nbunch_iter g n))"

definition in_edges :: "digraph \<Rightarrow> node \<Rightarrow> (node \<times> node) list" where
  "in_edges g n =
     concat (map (\<lambda>v. filter (\<lambda>e. snd e = v) (edge_list g)) (nbunch_iter g n))"

definition in_degree :: "digraph \<Rightarrow> node \<Rightarrow> nat" where
  "in_degree g n = length (filter (\<lambda>e. snd e = n) (edge_list g))"

definition successors :: "digraph \<Rightarrow> node \<Rightarrow> node list" where
  "successors g v = map snd (filter (\<lambda>e. fst e = v) (edge_list g))"

section \<open>Exceptions\<close>

text \<open>
  Every way a call of the source can end without returning is a value:
  the two exceptions of the path search, the built-in exceptions of Python,
  and \<^verbatim>\<open>exit()\<close>, which ends the process.
\<close>

datatype exn =
    NodeNotFound
  | NetworkXNoPath
  | SystemExit
  | IndexError
  | ZeroDivisionError

section \<open>The library's path search\<close>

text \<open>
  \<^verbatim>\<open>nx.shortest_simple_paths(G, source, target)\<close> is a generator of the simple
  paths from source to target, shortest first. It raises \<^verbatim>\<open>NodeNotFound\<close>
  when an endpoint is not a node of the graph and \<^verbatim>\<open>NetworkXNoPath\<close> when
  there is no path; both happen before the first path is produced. When
  source and target are the same node, the only path is the one-node path.
  The model lists every simple path by a depth-first walk that never re-enters a
  visited node (the fuel is the number of nodes, which no simple path exceeds)
  and sorts the paths by length; the order among paths of equal length is the
  walk's.
\<close>

primrec simple_paths_from :: "digraph \<Rightarrow> node \<Rightarrow> nat \<Rightarrow> node list \<Rightarrow> node \<Rightarrow> path list" where
  "simple_paths_from g t 0 visited v = (if v = t then [[v]] else [])"
| "simple_paths_from g t (Suc n) visited v =
     (if v = t then [[v]]
      else concat (map (\<lambda>w. map ((#) v) (simple_paths_from g t n (v # visited) w))
                    (filter (\<lambda>w. w \<notin> set (v # visited)) (successors g v))))"

definition shortest_simple_paths :: "digraph \<Rightarrow> node \<Rightarrow> node \<Rightarrow> exn + path list" where
  "shortest_simple_paths g source target =
     (if \<not> has_node g source then Inl NodeNotFound
      else if \<not> has_node g target then Inl NodeNotFound
      else let ps = sort_key length
                     (simple_paths_from g target (length (node_list g)) [] source)
           in if ps = [] then Inl NetworkXNoPath else Inr ps)"

section \<open>Candidate paths\<close>

text \<open>
  \<^verbatim>\<open>k_shortest_paths\<close>: the first \<open>k\<close> paths of the generator; the bare
  \<^verbatim>\<open>except\<close> turns every exception into the list \<^verbatim>\<open>[[]]\<close>. The callers
  leave \<open>k\<close> at its default, 7.
\<close>

definition K :: nat where
  "K = 7"

definition k_shortest_paths :: "digraph \<Rightarrow> node \<Rightarrow> node \<Rightarrow> nat \<Rightarrow> path list" where
  "k_shortest_paths g source target k =
     (case shortest_simple_paths g source target of
        Inl e \<Rightarrow> [[]]
      | Inr ps \<Rightarrow> take k ps)"

text \<open>
  \<^verbatim>\<open>cut_executed_nodes\<close>: the loop over \<^verbatim>\<open>enumerate(path)\<close> returns at the
  first node whose list of candidate paths to the last node is not empty; when
  the loop ends without returning, the path is printed and the process exits.
\<close>

fun cut_loop :: "digraph \<Rightarrow> path \<Rightarrow> (nat \<times> node) list \<Rightarrow> exn + path" where
  "cut_loop g path [] = Inl SystemExit"
| "cut_loop g path ((index, node) # rest) =
     (let shortened_paths = k_shortest_paths g node (last path) K;
          shortened_paths = (if length shortened_paths > 10
                             then take 10 shortened_paths else shortened_paths)
      in if shortened_paths \<noteq> [] then Inr (drop index path)
         else cut_loop g path rest)"

definition cut_executed_nodes :: "digraph \<Rightarrow> path \<Rightarrow> exn + path" where
  "cut_executed_nodes g path = cut_loop g path (enumerate 0 path)"

text \<open>
  \<^verbatim>\<open>is_path_direct\<close>. The first loop runs over \<^verbatim>\<open>enumerate(path[:-1])\<close> and
  keeps the last index whose next node is not among \<^verbatim>\<open>e[1]\<close> of the
  in-edges \<^verbatim>\<open>e\<close> of the node. The second loop runs over
  \<^verbatim>\<open>enumerate(path[dir_change_index:-1])\<close>, whose indices start again at 0,
  and reads \<^verbatim>\<open>path[index+1]\<close>; both reads are inside the path.
\<close>

fun dir_change_loop :: "digraph \<Rightarrow> path \<Rightarrow> (nat \<times> node) list \<Rightarrow> nat \<Rightarrow> nat" where
  "dir_change_loop g path [] dir_change_index = dir_change_index"
| "dir_change_loop g path ((index, node) # rest) dir_change_index =
     (let sources = map snd (in_edges g node);
          next_node = path ! (index + 1)
      in dir_change_loop g path rest
           (if next_node \<notin> set sources then index else dir_change_index))"

fun forward_loop :: "digraph \<Rightarrow> path \<Rightarrow> (nat \<times> node) list \<Rightarrow> bool" where
  "forward_loop g path [] = True"
| "forward_loop g path ((index, node) # rest) =
     (let destinations = map snd (out_edges g node);
          next_node = path ! (index + 1)
      in if next_node \<notin> set destinations then False
         else forward_loop g path rest)"

definition is_path_direct :: "digraph \<Rightarrow> path \<Rightarrow> path" where
  "is_path_direct g path =
     (let dir_change_index = dir_change_loop g path (enumerate 0 (butlast path)) 0
      in if forward_loop g path (enumerate 0 (drop dir_change_index (butlast path)))
         then drop dir_change_index path
         else [])"

section \<open>The random source\<close>

text \<open>
  \<^verbatim>\<open>random.choice(seq)\<close> raises IndexError on an empty sequence and otherwise
  returns an element at an index that the state of the generator decides. The
  state is the sequence of numbers still to be drawn; a source that has run dry
  draws 0.
\<close>

type_synonym rng = "nat list"

definition random_choice :: "'a list \<Rightarrow> rng \<Rightarrow> exn + ('a \<times> rng)" where
  "random_choice xs r =
     (if xs = [] then Inl IndexError
      else case r of
             [] \<Rightarrow> Inr (xs ! 0, [])
           | d # r' \<Rightarrow> Inr (xs ! (d mod length xs), r'))"

section \<open>Segments between two logged nodes\<close>

text \<open>
  The loop of case 2 of \<^verbatim>\<open>find_execution_path\<close> appends to the list it
  iterates over, so the iteration also visits what it appended; it may never
  end, and \<open>None\<close> is the run that does not return.
\<close>

partial_function (option) extend_paths :: "digraph \<Rightarrow> path list \<Rightarrow> nat \<Rightarrow> path list option" where
  "extend_paths g paths i =
     (if i < length paths
      then (let short_path = is_path_direct g (paths ! i)
            in if short_path \<noteq> [] then extend_paths g (paths @ [short_path]) (i + 1)
               else extend_paths g paths (i + 1))
      else Some paths)"

declare extend_paths.simps [code]

definition find_execution_path ::
  "digraph \<Rightarrow> digraph \<Rightarrow> node \<Rightarrow> node \<Rightarrow> node \<Rightarrow> node set \<Rightarrow> rng \<Rightarrow> (exn + path \<times> rng) option" where
  "find_execution_path g u node1 node2 last_dif_node logged_nodes r =
     (if node1 = node2 \<and> list_ex (\<lambda>e. snd e = node2) (out_edges g node1)
      then Some (Inr ([node1, node2], r))
      else
        let node1 = (if node1 = node2 then last_dif_node else node1);
            paths = k_shortest_paths g node1 node2 K;
            paths = (if length paths > 10 then take 10 paths else paths);
            is_direct = (paths \<noteq> [])
        in case (if paths = [] then extend_paths g (k_shortest_paths u node1 node2 K) 0
                 else Some paths) of
             None \<Rightarrow> None
           | Some paths \<Rightarrow>
               (let cleaned_paths =
                      filter (\<lambda>path. set (butlast (tl path)) \<inter> logged_nodes = {}) paths
                in if cleaned_paths = [] then Some (Inr ([], r))
                   else case random_choice cleaned_paths r of
                          Inl e \<Rightarrow> Some (Inl e)
                        | Inr (p, r') \<Rightarrow>
                            if is_direct then Some (Inr (p, r'))
                            else (case cut_executed_nodes g p of
                                    Inl e \<Rightarrow> Some (Inl e)
                                  | Inr q \<Rightarrow> Some (Inr (q, r')))))"

fun find_last_dif_loop :: "node list \<Rightarrow> node \<Rightarrow> node" where
  "find_last_dif_loop [] new_node = new_node"
| "find_last_dif_loop (i # rest) new_node =
     (if i \<noteq> new_node then i else find_last_dif_loop rest new_node)"

definition find_last_dif :: "node list \<Rightarrow> node \<Rightarrow> node" where
  "find_last_dif nodes new_node = find_last_dif_loop (rev nodes) new_node"

section \<open>Reconstruction\<close>

text \<open>
  The loop over the logs threads the reconstruction and the random source.
  \<^verbatim>\<open>reconstruction[-1]\<close> raises IndexError on an empty list.
\<close>

fun reconstruct_loop ::
  "digraph \<Rightarrow> digraph \<Rightarrow> node set \<Rightarrow> node list \<Rightarrow> path \<Rightarrow> rng \<Rightarrow> (exn + path) option" where
  "reconstruct_loop g u logged_nodes [] reconstruction r = Some (Inr reconstruction)"
| "reconstruct_loop g u logged_nodes (node # rest) reconstruction r =
     (let last_dif_node = find_last_dif reconstruction node
      in if reconstruction = [] then Some (Inl IndexError)
         else case find_execution_path g u (last reconstruction) node
                     last_dif_node logged_nodes r of
                None \<Rightarrow> None
              | Some (Inl e) \<Rightarrow> Some (Inl e)
              | Some (Inr (p, r')) \<Rightarrow>
                  (let new_path = tl p
                   in if new_path \<noteq> []
                      then reconstruct_loop g u logged_nodes rest (reconstruction @ new_path) r'
                      else reconstruct_loop g u logged_nodes rest (reconstruction @ [node]) r'))"

definition reconstruct_path :: "digraph \<Rightarrow> node list \<Rightarrow> node \<Rightarrow> rng \<Rightarrow> (exn + path) option" where
  "reconstruct_path g logs source r =
     (let u = to_undirected g;
          logged_nodes = set logs;
          reconstruction = [source]
      in case reconstruct_loop g u logged_nodes logs reconstruction r of
           None \<Rightarrow> None
         | Some (Inl e) \<Rightarrow> Some (Inl e)
         | Some (Inr reconstruction) \<Rightarrow> Some (Inr (tl reconstruction)))"

section \<open>Evaluation\<close>

definition gap :: node where
  "gap = '' ''"

fun match_loop :: "node list \<Rightarrow> node list \<Rightarrow> nat \<Rightarrow> node list \<Rightarrow> node list" where
  "match_loop [] reconstructed r_index matched = matched"
| "match_loop (node # rest) reconstructed r_index matched =
     (if r_index = length reconstructed
      then match_loop rest reconstructed r_index (matched @ [gap])
      else if node = reconstructed ! r_index
      then match_loop rest reconstructed (r_index + 1) (matched @ [node])
      else match_loop rest reconstructed r_index (matched @ [gap]))"

definition match_reconstruction :: "node list \<Rightarrow> node list \<Rightarrow> node list" where
  "match_reconstruction real_nodes reconstructed = match_loop real_nodes reconstructed 0 []"

text \<open>
  \<^verbatim>\<open>get_true_positive\<close> reads \<^verbatim>\<open>matched[index]\<close> for every index of
  \<^verbatim>\<open>real\<close>: IndexError when \<^verbatim>\<open>matched\<close> is the shorter list.
\<close>

fun true_positive_loop :: "(nat \<times> node) list \<Rightarrow> node list \<Rightarrow> nat \<Rightarrow> exn + nat" where
  "true_positive_loop [] matched count = Inr count"
| "true_positive_loop ((index, r) # rest) matched count =
     (if index < length matched
      then true_positive_loop rest matched (if r = matched ! index then count + 1 else count)
      else Inl IndexError)"

definition get_true_positive :: "node list \<Rightarrow> node list \<Rightarrow> exn + nat" where
  "get_true_positive real_nodes matched = true_positive_loop (enumerate 0 real_nodes) matched 0"

text \<open>
  The quotient of two Python integers is the float nearest to the exact
  quotient, and ZeroDivisionError when the divisor is 0; the model keeps the
  exact quotient. Rounding is monotone and 0 and 1 are floats, so a bound of the
  exact quotient by 0 or 1 is a bound of the float.
\<close>

definition true_div :: "nat \<Rightarrow> nat \<Rightarrow> exn + rat" where
  "true_div a b = (if b = 0 then Inl ZeroDivisionError else Inr (of_nat a / of_nat b))"

definition evaluate_precision :: "node list \<Rightarrow> node list \<Rightarrow> exn + rat" where
  "evaluate_precision real_nodes reconstructed =
     (let matched = match_reconstruction real_nodes reconstructed
      in case get_true_positive real_nodes matched of
           Inl e \<Rightarrow> Inl e
         | Inr tp \<Rightarrow> true_div tp (length reconstructed))"

definition evaluate_recall :: "node list \<Rightarrow> node list \<Rightarrow> exn + rat" where
  "evaluate_recall real_nodes matched =
     (case get_true_positive real_nodes matched of
        Inl e \<Rightarrow> Inl e
      | Inr tp \<Rightarrow> true_div tp (length matched))"

section \<open>The entry point of a graph\<close>

text \<open>
  \<^verbatim>\<open>get_source\<close> in \<^verbatim>\<open>graph_processing.py\<close>: the nodes of in-degree 0 are
  collected, and unless there is exactly one the process exits.
\<close>

definition get_source :: "digraph \<Rightarrow> exn + node" where
  "get_source g =
     (let sources = filter (\<lambda>node. in_degree g node = 0) (node_list g)
      in if length sources \<noteq> 1 then Inl SystemExit else Inr (sources ! 0))"

text \<open>
  A source of a graph, in the words of the specification: a node of the graph
  with no incoming edge.
\<close>

definition is_source :: "digraph \<Rightarrow> node \<Rightarrow> bool" where
  "is_source g n = (has_node g n \<and> (\<forall>m. (m, n) \<notin> set (graph_edges g)))"

section \<open>Example graphs\<close>

definition graph_ab :: digraph where
  "graph_ab = \<lparr>graph_nodes = [], graph_edges = [(''A'', ''B'')]\<rparr>"

definition graph_abc :: digraph where
  "graph_abc = \<lparr>graph_nodes = [], graph_edges = [(''A'', ''B''), (''B'', ''C'')]\<rparr>"

definition graph_abcd :: digraph where
  "graph_abcd = \<lparr>graph_nodes = [],
     graph_edges = [(''A'', ''B''), (''B'', ''C''), (''C'', ''D'')]\<rparr>"

definition graph_loop :: digraph where
  "graph_loop = \<lparr>graph_nodes = [], graph_edges = [(''A'', ''E''), (''E'', ''E'')]\<rparr>"

text \<open>The call graph of \<^verbatim>\<open>log_sequences_demo.py\<close>.\<close>

definition graph_demo :: digraph where
  "graph_demo = \<lparr>graph_nodes = [],
     graph_edges = [(''A'', ''B''), (''B'', ''G''), (''G'', ''E''), (''E'', ''E''),
       (''A'', ''C''), (''C'', ''E''), (''A'', ''D''), (''D'', ''F''), (''F'', ''D'')]\<rparr>"

definition graph_two_sources :: digraph where
  "graph_two_sources = \<lparr>graph_nodes = [], graph_edges = [(''A'', ''C''), (''B'', ''C'')]\<rparr>"

definition graph_cycle :: digraph where
  "graph_cycle = \<lparr>graph_nodes = [], graph_edges = [(''A'', ''B''), (''B'', ''A'')]\<rparr>"

section \<open>The path search and its wrapper\<close>

lemma shortest_simple_paths_Inr:
  "shortest_simple_paths g s t = Inr ps \<Longrightarrow> ps \<noteq> []"
  by (auto simp: shortest_simple_paths_def Let_def split: if_splits)

lemma k_shortest_paths_not_Nil: "k_shortest_paths g s t K \<noteq> []"
  by (auto simp: k_shortest_paths_def K_def split: sum.splits dest: shortest_simple_paths_Inr)

lemma k_shortest_paths_length: "length (k_shortest_paths g s t K) \<le> 7"
  by (simp add: k_shortest_paths_def K_def split: sum.splits)

lemma k_shortest_paths_raise:
  "shortest_simple_paths g s t = Inl e \<Longrightarrow> k_shortest_paths g s t k = [[]]"
  by (simp add: k_shortest_paths_def)

lemma simple_paths_from_ends:
  "p \<in> set (simple_paths_from g t n visited v) \<Longrightarrow> p \<noteq> [] \<and> hd p = v \<and> last p = t"
proof (induction n arbitrary: p visited v)
  case 0
  then show ?case by (auto split: if_splits)
next
  case (Suc n)
  show ?case
  proof (cases "v = t")
    case True
    with Suc.prems show ?thesis by simp
  next
    case False
    with Suc.prems obtain w q where q: "q \<in> set (simple_paths_from g t n (v # visited) w)"
      and p: "p = v # q"
      by auto
    from Suc.IH [OF q] p show ?thesis by simp
  qed
qed

lemma k_shortest_paths_ends:
  assumes "p \<in> set (k_shortest_paths g s t k)"
  shows "p = [] \<or> (hd p = s \<and> last p = t)"
proof (cases "shortest_simple_paths g s t")
  case (Inl e)
  with assms show ?thesis by (simp add: k_shortest_paths_def)
next
  case (Inr ps)
  with assms have "p \<in> set ps"
    by (auto simp: k_shortest_paths_def dest: in_set_takeD)
  moreover from Inr have "set ps = set (simple_paths_from g t (length (node_list g)) [] s)"
    by (auto simp: shortest_simple_paths_def Let_def split: if_splits)
  ultimately show ?thesis
    using simple_paths_from_ends by blast
qed

text \<open>
  Claim C1: when no path leads from the source to the target, or the search
  fails, \<^verbatim>\<open>k_shortest_paths\<close> returns an empty collection, not a collection
  that holds an empty path. The code does not: in the graph with the single edge
  A \<rightarrow> B there is no path from B to A, the search raises, and the handler returns
  the one-element list \<^verbatim>\<open>[[]]\<close>, which is not empty. The callers test the
  result for emptiness (\<^verbatim>\<open>if not paths\<close>, \<^verbatim>\<open>if shortened_paths\<close>), which
  this value never satisfies.
\<close>

theorem k_shortest_paths_no_path:
  "shortest_simple_paths graph_ab ''B'' ''A'' = Inl NetworkXNoPath \<and>
   k_shortest_paths graph_ab ''B'' ''A'' K = [[]] \<and>
   k_shortest_paths graph_ab ''B'' ''A'' K \<noteq> []"
  by code_simp

section \<open>Trimming the executed prefix\<close>

text \<open>
  Since the list of candidates is never empty, the loop of
  \<^verbatim>\<open>cut_executed_nodes\<close> returns in its first round.
\<close>

lemma cut_executed_nodes_whole:
  "path \<noteq> [] \<Longrightarrow> cut_executed_nodes g path = Inr path"
  by (cases path)
    (simp_all add: cut_executed_nodes_def enumerate_simps k_shortest_paths_not_Nil Let_def)

text \<open>
  Claim C2: \<^verbatim>\<open>cut_executed_nodes\<close> returns the suffix of the path that starts at
  the first node with a forward path to the last node, and aborts when no node has
  one. The code does not trim: in the graph A \<rightarrow> B the path B, A has no forward
  path from B to A while A reaches itself, so the claimed result is the suffix
  A alone; the code returns the whole path B, A.
\<close>

theorem cut_executed_nodes_keeps_prefix:
  "shortest_simple_paths graph_ab ''B'' ''A'' = Inl NetworkXNoPath \<and>
   shortest_simple_paths graph_ab ''A'' ''A'' = Inr [[''A'']] \<and>
   cut_executed_nodes graph_ab [''B'', ''A''] = Inr [''B'', ''A'']"
  by code_simp

section \<open>Direction consistency\<close>

text \<open>
  Claim C4: \<^verbatim>\<open>is_path_direct\<close> returns the suffix from the last position where
  the direction is violated when every consecutive pair from there on is a directed
  edge, and the empty list otherwise. In the graph A \<rightarrow> B \<rightarrow> C every consecutive
  pair of the path A, B, C is a directed edge, so under the claim the result is a
  non-empty suffix; the code returns the empty list.
\<close>

theorem is_path_direct_rejects_forward_path:
  "(''A'', ''B'') \<in> set (graph_edges graph_abc) \<and>
   (''B'', ''C'') \<in> set (graph_edges graph_abc) \<and>
   is_path_direct graph_abc [''A'', ''B'', ''C''] = []"
  by code_simp

section \<open>Segments\<close>

lemma out_edges_member:
  "(a, b) \<in> set (graph_edges g) \<Longrightarrow> (a, b) \<in> set (out_edges g a)"
  by (force simp: out_edges_def nbunch_iter_def has_node_def node_list_def edge_list_def)

text \<open>
  Claim C8: for a node with a self-loop edge that is its own target, the segment
  is exactly the two-element path of that node twice, whatever the state of the
  random source, which is left untouched.
\<close>

theorem find_execution_path_self_loop:
  assumes "(n, n) \<in> set (graph_edges g)"
  shows "find_execution_path g u n n last_dif_node logged_nodes r = Some (Inr ([n, n], r)) \<and>
         find_execution_path g u n n last_dif_node logged_nodes r' = Some (Inr ([n, n], r'))"
proof -
  from assms have "(n, n) \<in> set (out_edges g n)"
    by (rule out_edges_member)
  then have "list_ex (\<lambda>e. snd e = n) (out_edges g n)"
    by (force simp: list_ex_iff)
  then show ?thesis
    by (simp add: find_execution_path_def)
qed

theorem find_execution_path_self_loop_witness:
  "(''E'', ''E'') \<in> set (graph_edges graph_loop) \<and>
   find_execution_path graph_loop (to_undirected graph_loop) ''E'' ''E'' ''A'' {''E''} [3]
     = Some (Inr ([''E'', ''E''], [3])) \<and>
   find_execution_path graph_loop (to_undirected graph_loop) ''E'' ''E'' ''A'' {''E''} [8, 1]
     = Some (Inr ([''E'', ''E''], [8, 1]))"
  using find_execution_path_self_loop
    [of "''E''" graph_loop "to_undirected graph_loop" "''A''" "{''E''}" "[3]" "[8, 1]"]
  by (simp add: graph_loop_def)

lemma random_choice_member:
  "xs \<noteq> [] \<Longrightarrow> \<exists>x r'. random_choice xs r = Inr (x, r') \<and> x \<in> set xs"
  by (cases r) (simp_all add: random_choice_def)

text \<open>
  Every call of \<^verbatim>\<open>find_execution_path\<close> returns: the direct search never
  yields the empty list, so the loop of case 2 is not entered, and the chosen
  path is either empty or ends at the target.
\<close>

lemma find_execution_path_returns:
  "\<exists>p r'. find_execution_path g u node1 node2 last_dif_node logged_nodes r = Some (Inr (p, r'))
          \<and> (p = [] \<or> last p = node2)"
proof (cases "node1 = node2 \<and> list_ex (\<lambda>e. snd e = node2) (out_edges g node1)")
  case True
  then have "find_execution_path g u node1 node2 last_dif_node logged_nodes r
      = Some (Inr ([node1, node2], r))"
    unfolding find_execution_path_def by (rule if_P)
  then show ?thesis by simp
next
  case False
  let ?n1 = "if node1 = node2 then last_dif_node else node1"
  let ?ks = "k_shortest_paths g ?n1 node2 K"
  let ?paths = "if length ?ks > 10 then take 10 ?ks else ?ks"
  let ?cleaned = "filter (\<lambda>path. set (butlast (tl path)) \<inter> logged_nodes = {}) ?paths"
  have ne: "?paths \<noteq> []"
    using k_shortest_paths_not_Nil [of g ?n1 node2] by simp
  have sub: "set ?cleaned \<subseteq> set ?ks"
    by (auto dest: in_set_takeD split: if_splits)
  have "find_execution_path g u node1 node2 last_dif_node logged_nodes r =
     (case (if ?paths = [] then extend_paths g (k_shortest_paths u ?n1 node2 K) 0
            else Some ?paths) of
        None \<Rightarrow> None
      | Some paths \<Rightarrow>
          (let cleaned_paths =
                 filter (\<lambda>path. set (butlast (tl path)) \<inter> logged_nodes = {}) paths
           in if cleaned_paths = [] then Some (Inr ([], r))
              else case random_choice cleaned_paths r of
                     Inl e \<Rightarrow> Some (Inl e)
                   | Inr (p, r') \<Rightarrow>
                       if ?paths \<noteq> [] then Some (Inr (p, r'))
                       else (case cut_executed_nodes g p of
                               Inl e \<Rightarrow> Some (Inl e)
                             | Inr q \<Rightarrow> Some (Inr (q, r')))))"
    unfolding find_execution_path_def Let_def using False by (simp only: if_False)
  also have "\<dots> =
     (if ?cleaned = [] then Some (Inr ([], r))
      else case random_choice ?cleaned r of
             Inl e \<Rightarrow> Some (Inl e) | Inr (p, r') \<Rightarrow> Some (Inr (p, r')))"
    unfolding Let_def using ne
    by (simp only: if_False if_True option.case not_False_eq_True)
  finally have eq: "find_execution_path g u node1 node2 last_dif_node logged_nodes r =
     (if ?cleaned = [] then Some (Inr ([], r))
      else case random_choice ?cleaned r of
             Inl e \<Rightarrow> Some (Inl e) | Inr (p, r') \<Rightarrow> Some (Inr (p, r')))" .
  show ?thesis
  proof (cases "?cleaned = []")
    case True
    with eq show ?thesis by simp
  next
    case nonempty: False
    then obtain p r' where ch: "random_choice ?cleaned r = Inr (p, r')"
      and mem: "p \<in> set ?cleaned"
      using random_choice_member by blast
    from mem sub have "p = [] \<or> last p = node2"
      using k_shortest_paths_ends by blast
    with eq nonempty ch show ?thesis by simp
  qed
qed

section \<open>Reconstruction\<close>

text \<open>
  The loop returns from every non-empty reconstruction, and what it appends holds
  the logs in order: each round appends a non-empty list that ends with the
  logged node.
\<close>

lemma reconstruct_loop_returns:
  "reconstruction \<noteq> [] \<Longrightarrow>
   \<exists>ext. reconstruct_loop g u logged_nodes logs reconstruction r = Some (Inr (reconstruction @ ext))
        \<and> subseq logs ext \<and> length logs \<le> length ext"
proof (induction logs arbitrary: reconstruction r)
  case Nil
  then show ?case by simp
next
  case (Cons node rest)
  obtain p r' where fe: "find_execution_path g u (last reconstruction) node
        (find_last_dif reconstruction node) logged_nodes r = Some (Inr (p, r'))"
    and pl: "p = [] \<or> last p = node"
    using find_execution_path_returns by blast
  define new where "new = (if tl p \<noteq> [] then tl p else [node])"
  have new_last: "new \<noteq> [] \<and> last new = node"
    using pl by (cases p) (auto simp: new_def)
  then obtain front where new_eq: "new = front @ [node]"
    by (metis append_butlast_last_id)
  have step: "reconstruct_loop g u logged_nodes (node # rest) reconstruction r =
      reconstruct_loop g u logged_nodes rest (reconstruction @ new) r'"
    using Cons.prems fe by (simp add: new_def Let_def)
  from Cons.prems have "reconstruction @ new \<noteq> []" by simp
  from Cons.IH [OF this, of r'] obtain ext where
    ext: "reconstruct_loop g u logged_nodes rest (reconstruction @ new) r'
            = Some (Inr ((reconstruction @ new) @ ext))"
    and sub: "subseq rest ext" and len: "length rest \<le> length ext"
    by blast
  have "subseq (node # rest) (new @ ext)"
    unfolding new_eq using sub
    by (metis append.assoc append_Cons append_Nil list_emb_append2 subseq_Cons2)
  moreover have "length (node # rest) \<le> length (new @ ext)"
    using len new_last by (cases new) auto
  ultimately show ?case
    using step ext by (intro exI [of _ "new @ ext"]) simp
qed

text \<open>
  Claim C3: for every call graph and every log sequence the reconstruction
  terminates, and the candidate searches stay within their bound. The run
  returns a path for every input (the value \<open>None\<close> of a run that does not
  return is never taken, and no exception ends it), and every list of
  candidates has at most 7 paths. The library search is asked for at most
  7 paths, each found by a finite walk of a finite graph.
\<close>

theorem reconstruct_path_terminates:
  "(\<exists>out. reconstruct_path g logs source r = Some (Inr out)) \<and>
   (\<exists>segment. find_execution_path g u node1 node2 last_dif_node logged_nodes r'
       = Some (Inr segment)) \<and>
   length (k_shortest_paths g a b K) \<le> 7"
proof -
  have "\<exists>segment. find_execution_path g u node1 node2 last_dif_node logged_nodes r'
      = Some (Inr segment)"
    using find_execution_path_returns [of g u node1 node2 last_dif_node logged_nodes r']
    by auto
  moreover
  obtain ext where "reconstruct_loop g (to_undirected g) (set logs) logs [source] r
      = Some (Inr ([source] @ ext))"
    using reconstruct_loop_returns [of "[source]"] by blast
  then have "reconstruct_path g logs source r = Some (Inr ext)"
    by (simp add: reconstruct_path_def)
  ultimately show ?thesis
    using k_shortest_paths_length by blast
qed

text \<open>
  Claim C6: whenever the reconstruction completes, its output is at least as long
  as the log sequence and holds the log sequence as a subsequence, in order.
\<close>

theorem reconstruct_path_covers_logs:
  assumes "reconstruct_path g logs source r = Some (Inr out)"
  shows "length logs \<le> length out \<and> subseq logs out"
proof -
  obtain ext where run: "reconstruct_loop g (to_undirected g) (set logs) logs [source] r
      = Some (Inr ([source] @ ext))"
    and sub: "subseq logs ext" and len: "length logs \<le> length ext"
    using reconstruct_loop_returns [of "[source]"] by blast
  from run have "reconstruct_path g logs source r = Some (Inr ext)"
    by (simp add: reconstruct_path_def)
  with assms have "out = ext" by simp
  with sub len show ?thesis by simp
qed

text \<open>
  On the demo graph with the logs E, B, E: the first segment is A, C, E (the path
  through B is dropped, B being logged), B is inserted as it is since no directed
  path leads from E to B, and the last segment is B, G, E.
\<close>

theorem reconstruct_path_covers_logs_witness:
  "reconstruct_path graph_demo [''E'', ''B'', ''E''] ''A'' [5, 2, 4]
     = Some (Inr [''C'', ''E'', ''B'', ''G'', ''E'']) \<and>
   length [''E'', ''B'', ''E''] \<le> length [''C'', ''E'', ''B'', ''G'', ''E''] \<and>
   subseq [''E'', ''B'', ''E''] [''C'', ''E'', ''B'', ''G'', ''E'']"
proof -
  have run: "reconstruct_path graph_demo [''E'', ''B'', ''E''] ''A'' [5, 2, 4]
      = Some (Inr [''C'', ''E'', ''B'', ''G'', ''E''])"
    by code_simp
  from reconstruct_path_covers_logs [OF run] run show ?thesis by simp
qed

text \<open>
  Scenario A of the specification: on the chain A \<rightarrow> B \<rightarrow> C \<rightarrow> D with the single
  log D, the reconstruction from A is B, C, D.
\<close>

lemma reconstruct_path_scenario_A:
  "reconstruct_path graph_abcd [''D''] ''A'' r = Some (Inr [''B'', ''C'', ''D''])"
proof -
  have paths: "k_shortest_paths graph_abcd ''A'' ''D'' K = [[''A'', ''B'', ''C'', ''D'']]"
    by code_simp
  have no_loop: "\<not> list_ex (\<lambda>e. snd e = ''D'') (out_edges graph_abcd ''A'')"
    by code_simp
  have "random_choice [[''A'', ''B'', ''C'', ''D'']] r
      = Inr ([''A'', ''B'', ''C'', ''D''], tl r)"
    by (cases r) (simp_all add: random_choice_def)
  then have "find_execution_path graph_abcd (to_undirected graph_abcd) ''A'' ''D'' ''A''
      {''D''} r = Some (Inr ([''A'', ''B'', ''C'', ''D''], tl r))"
    using no_loop by (simp add: find_execution_path_def paths)
  then show ?thesis
    by (simp add: reconstruct_path_def find_last_dif_def)
qed

text \<open>
  Claim C10: with an empty log sequence the reconstruction returns the empty
  list and raises nothing: the seeded source is stripped and nothing is appended.
\<close>

theorem reconstruct_path_no_logs: "reconstruct_path g [] source r = Some (Inr [])"
  by (simp add: reconstruct_path_def)

section \<open>Precision and recall\<close>

text \<open>
  The accumulator of the matching loop is a prefix of its result, and the
  result has one slot for every node of the reference.
\<close>

lemma match_loop_acc:
  "match_loop real_nodes reconstructed i acc = acc @ match_loop real_nodes reconstructed i []"
proof (induction real_nodes arbitrary: i acc)
  case Nil
  then show ?case by simp
next
  case (Cons node rest)
  have step: "match_loop rest reconstructed j (acc @ [x]) =
      acc @ match_loop rest reconstructed j [x]" for j x
    using Cons.IH [of j "acc @ [x]"] Cons.IH [of j "[x]"] by simp
  show ?case by (simp add: step)
qed

lemma length_match_loop:
  "length (match_loop real_nodes reconstructed i acc) = length acc + length real_nodes"
  by (induction real_nodes arbitrary: i acc) simp_all

text \<open>
  The count of true positives is computed when \<^verbatim>\<open>matched\<close> covers the
  reference, and only then; it grows by at most one for each node.
\<close>

lemma true_positive_loop_in_range:
  "k + length real_nodes \<le> length matched \<Longrightarrow>
   \<exists>tp. true_positive_loop (enumerate k real_nodes) matched count = Inr tp"
  by (induction real_nodes arbitrary: k count) (simp_all add: enumerate_simps)

lemma true_positive_loop_bound:
  "true_positive_loop (enumerate k real_nodes) matched count = Inr tp \<Longrightarrow>
   tp \<le> count + length real_nodes \<and> count \<le> tp \<and>
   (real_nodes \<noteq> [] \<longrightarrow> k + length real_nodes \<le> length matched)"
proof (induction real_nodes arbitrary: k count)
  case Nil
  then show ?case by simp
next
  case (Cons r rest)
  from Cons.prems have inr: "k < length matched"
    and rec: "true_positive_loop (enumerate (Suc k) rest) matched
                (if r = matched ! k then count + 1 else count) = Inr tp"
    by (auto simp: enumerate_simps split: if_splits)
  from Cons.IH [OF rec] inr show ?case
    by (cases rest) (auto split: if_splits)
qed

text \<open>
  Against the matching of a reference that does not hold the gap marker, a
  position counts only where the matching advanced in the reconstruction.
\<close>

lemma true_positive_match_bound:
  assumes "gap \<notin> set real_nodes" and "i \<le> length reconstructed"
    and "true_positive_loop (enumerate (length acc) real_nodes)
           (match_loop real_nodes reconstructed i acc) count = Inr tp"
  shows "tp + i \<le> count + length reconstructed"
  using assms
proof (induction real_nodes arbitrary: i acc count)
  case Nil
  then show ?case by simp
next
  case (Cons node rest)
  let ?m = "match_loop (node # rest) reconstructed i acc"
  have ng: "node \<noteq> gap" and rest: "gap \<notin> set rest"
    using Cons.prems(1) by auto
  show ?case
  proof (cases "i \<noteq> length reconstructed \<and> node = reconstructed ! i")
    case True
    then have m: "?m = match_loop rest reconstructed (i + 1) (acc @ [node])" by simp
    have at: "?m ! length acc = node"
      unfolding m by (subst match_loop_acc) (simp add: nth_append)
    have lt: "length acc < length ?m"
      by (simp only: length_match_loop) simp
    from Cons.prems(3) at lt
    have "true_positive_loop (enumerate (length (acc @ [node])) rest)
            (match_loop rest reconstructed (i + 1) (acc @ [node])) (count + 1) = Inr tp"
      unfolding m [symmetric] by (simp add: enumerate_simps)
    from Cons.IH [OF rest _ this] True Cons.prems(2) show ?thesis by simp
  next
    case False
    then have m: "?m = match_loop rest reconstructed i (acc @ [gap])" by auto
    have at: "?m ! length acc = gap"
      unfolding m by (subst match_loop_acc) (simp add: nth_append)
    have lt: "length acc < length ?m"
      by (simp only: length_match_loop) simp
    from Cons.prems(3) at lt ng
    have "true_positive_loop (enumerate (length (acc @ [gap])) rest)
            (match_loop rest reconstructed i (acc @ [gap])) count = Inr tp"
      unfolding m [symmetric] by (simp add: enumerate_simps)
    from Cons.IH [OF rest Cons.prems(2) this] show ?thesis .
  qed
qed

lemma true_div_unit:
  "true_div a b = Inr q \<Longrightarrow> a \<le> b \<Longrightarrow> 0 \<le> q \<and> q \<le> 1"
  by (auto simp: true_div_def split: if_splits)

text \<open>
  Claim C7, amended: the precision lies in the interval from 0 to 1 whenever it
  is computed and the reference does not hold the gap marker (the one-space
  string); the recall lies in that interval whenever it is computed.
\<close>

theorem precision_recall_unit_interval:
  "(gap \<notin> set real_nodes \<and> evaluate_precision real_nodes reconstructed = Inr p
      \<longrightarrow> 0 \<le> p \<and> p \<le> 1) \<and>
   (evaluate_recall real_nodes matched = Inr q \<longrightarrow> 0 \<le> q \<and> q \<le> 1)"
proof (rule conjI; rule impI)
  assume a: "gap \<notin> set real_nodes \<and> evaluate_precision real_nodes reconstructed = Inr p"
  then obtain tp where tp: "true_positive_loop (enumerate (length ([] :: node list)) real_nodes)
        (match_loop real_nodes reconstructed 0 []) 0 = Inr tp"
    and d: "true_div tp (length reconstructed) = Inr p"
    by (auto simp: evaluate_precision_def get_true_positive_def match_reconstruction_def
        split: sum.splits)
  from a true_positive_match_bound [OF _ _ tp] have "tp \<le> length reconstructed" by simp
  with d show "0 \<le> p \<and> p \<le> 1" using true_div_unit by blast
next
  assume "evaluate_recall real_nodes matched = Inr q"
  then obtain tp where tp: "true_positive_loop (enumerate 0 real_nodes) matched 0 = Inr tp"
    and d: "true_div tp (length matched) = Inr q"
    by (auto simp: evaluate_recall_def get_true_positive_def split: sum.splits)
  from true_positive_loop_bound [OF tp] have "tp \<le> length matched"
    by (cases real_nodes) auto
  with d show "0 \<le> q \<and> q \<le> 1" using true_div_unit by blast
qed

theorem precision_recall_unit_interval_witness:
  "gap \<notin> set [''A'', ''B'', ''C''] \<and>
   evaluate_precision [''A'', ''B'', ''C''] [''A'', ''C''] = Inr 1 \<and>
   evaluate_recall [''A'', ''B'', ''C''] [''A'', gap, ''C''] = Inr (2 / 3) \<and>
   (0::rat) \<le> 1 \<and> (1::rat) \<le> 1 \<and> (0::rat) \<le> 2 / 3 \<and> (2 / 3 :: rat) \<le> 1"
proof -
  have g: "gap \<notin> set [''A'', ''B'', ''C'']" by (simp add: gap_def)
  have p: "evaluate_precision [''A'', ''B'', ''C''] [''A'', ''C''] = Inr 1" by code_simp
  have q: "evaluate_recall [''A'', ''B'', ''C''] [''A'', gap, ''C''] = Inr (2 / 3)" by code_simp
  from precision_recall_unit_interval
    [of "[''A'', ''B'', ''C'']" "[''A'', ''C'']" 1 "[''A'', gap, ''C'']" "2 / 3"] g p q
  show ?thesis by simp
qed

text \<open>
  Claim C7 as stated fails: a reference node that is the gap marker itself counts
  as a true positive at every gap, so a reference of two such nodes against a
  reconstruction of one node has precision 2.
\<close>

theorem precision_above_one:
  "evaluate_precision [gap, gap] [''A''] = Inr 2 \<and> \<not> (2::rat) \<le> 1"
  by code_simp

text \<open>
  Claim C5, amended: the precision of an empty reconstruction ends in Python's
  ZeroDivisionError; the recall against an empty matching ends in IndexError,
  raised by the count of true positives before any division, when the reference
  is not empty, and in ZeroDivisionError when it is empty. Neither returns a
  value, so no NaN is produced; the evaluation has no error value of its own.
\<close>

theorem zero_denominator_raises:
  "evaluate_precision real_nodes [] = Inl ZeroDivisionError \<and>
   evaluate_recall real_nodes [] =
     Inl (if real_nodes = [] then ZeroDivisionError else IndexError)"
proof
  obtain tp where "get_true_positive real_nodes (match_reconstruction real_nodes []) = Inr tp"
    unfolding get_true_positive_def match_reconstruction_def
    using true_positive_loop_in_range [of 0 real_nodes "match_loop real_nodes [] 0 []" 0]
    by (auto simp: length_match_loop)
  then show "evaluate_precision real_nodes [] = Inl ZeroDivisionError"
    by (simp add: evaluate_precision_def true_div_def)
  show "evaluate_recall real_nodes [] =
     Inl (if real_nodes = [] then ZeroDivisionError else IndexError)"
    by (cases real_nodes)
      (simp_all add: evaluate_recall_def get_true_positive_def true_div_def enumerate_simps)
qed

text \<open>
  Claim C5 as stated fails: on the reference of the single node A, the precision
  of the empty reconstruction is an uncaught ZeroDivisionError, and the recall
  against the empty matching is an uncaught IndexError, not an error value
  of the evaluation reporting the empty denominator.
\<close>

theorem zero_denominator_uncaught:
  "evaluate_precision [''A''] [] = Inl ZeroDivisionError \<and>
   evaluate_recall [''A''] [] = Inl IndexError"
  by code_simp

section \<open>The source node\<close>

lemma in_degree_zero:
  "in_degree g n = 0 \<longleftrightarrow> (\<forall>m. (m, n) \<notin> set (graph_edges g))"
  by (auto simp: in_degree_def edge_list_def filter_empty_conv)

lemma sources_set:
  "set (filter (\<lambda>node. in_degree g node = 0) (node_list g)) = {n. is_source g n}"
  by (auto simp: is_source_def has_node_def in_degree_zero)

lemma sources_distinct:
  "distinct (filter (\<lambda>node. in_degree g node = 0) (node_list g))"
  by (simp add: node_list_def)

text \<open>
  Claim C9: \<^verbatim>\<open>get_source\<close> returns the node with no incoming edge when there
  is exactly one, and exits instead of returning a node when there is none or more
  than one.
\<close>

theorem get_source_unique:
  "(is_source g s \<and> (\<forall>n. is_source g n \<longrightarrow> n = s) \<longrightarrow> get_source g = Inr s) \<and>
   (\<not> (\<exists>!n. is_source g n) \<longrightarrow> get_source g = Inl SystemExit)"
proof -
  let ?sources = "filter (\<lambda>node. in_degree g node = 0) (node_list g)"
  have one: "length ?sources = 1 \<longleftrightarrow> (\<exists>!n. is_source g n)"
  proof
    assume "length ?sources = 1"
    then obtain x where "?sources = [x]"
      by (metis One_nat_def length_0_conv length_Suc_conv)
    then have "{n. is_source g n} = {x}"
      using sources_set [of g] by simp
    then have "is_source g n \<longleftrightarrow> n = x" for n by blast
    then show "\<exists>!n. is_source g n" by auto
  next
    assume "\<exists>!n. is_source g n"
    then obtain x where "{n. is_source g n} = {x}" by auto
    then have "set ?sources = {x}" by (simp only: sources_set)
    then have "card (set ?sources) = card {x}" by (simp only:)
    moreover have "card (set ?sources) = length ?sources"
      using sources_distinct [of g] by (rule distinct_card)
    ultimately show "length ?sources = 1" by simp
  qed
  have first: "get_source g = Inr s" if "is_source g s" and "\<forall>n. is_source g n \<longrightarrow> n = s"
  proof -
    from that have "\<exists>!n. is_source g n" by auto
    with one have len: "length ?sources = 1" by simp
    then obtain x where x: "?sources = [x]"
      by (metis One_nat_def length_0_conv length_Suc_conv)
    then have "x \<in> set ?sources" by simp
    then have "x \<in> {n. is_source g n}" by (simp only: sources_set)
    with that have "x = s" by simp
    with x len show ?thesis by (simp add: get_source_def)
  qed
  have second: "get_source g = Inl SystemExit" if "\<not> (\<exists>!n. is_source g n)"
    using that one by (simp add: get_source_def)
  from first second show ?thesis by blast
qed

lemma is_source_ab: "is_source graph_ab n \<longleftrightarrow> n = ''A''"
  by (auto simp: is_source_def graph_ab_def has_node_def node_list_def)

lemma is_source_two: "is_source graph_two_sources n \<longleftrightarrow> n = ''A'' \<or> n = ''B''"
  by (auto simp: is_source_def graph_two_sources_def has_node_def node_list_def)

lemma is_source_cycle: "\<not> is_source graph_cycle n"
  by (auto simp: is_source_def graph_cycle_def has_node_def node_list_def)

theorem get_source_unique_witness:
  "is_source graph_ab ''A'' \<and> \<not> is_source graph_ab ''B'' \<and>
   get_source graph_ab = Inr ''A'' \<and>
   \<not> (\<exists>!n. is_source graph_two_sources n) \<and> get_source graph_two_sources = Inl SystemExit \<and>
   \<not> (\<exists>!n. is_source graph_cycle n) \<and> get_source graph_cycle = Inl SystemExit"
proof -
  have two: "\<not> (\<exists>!n. is_source graph_two_sources n)"
    by (auto simp: is_source_two)
  have none: "\<not> (\<exists>!n. is_source graph_cycle n)"
    by (auto simp: is_source_cycle)
  from get_source_unique [of graph_ab "''A''"] get_source_unique [of graph_two_sources]
    get_source_unique [of graph_cycle] two none
  show ?thesis by (simp add: is_source_ab)
qed

end
